theory Spec2Isabelle
  imports Main
begin

section \<open>The fake modem of \<open>fake_modem.c\<close>\<close>

text \<open>
  The module reads UART2 one byte at a time, gathers the bytes of a line in a 128-byte
  array, and answers each complete line with a canned AT response on UART2 TX.
  A C \<open>char\<close> and a \<open>uint8_t\<close> are both eight bits, as is an Isabelle \<open>char\<close>; a C
  array of chars is a \<open>char list\<close> whose length is the size of the array.
\<close>

subsection \<open>Bytes with a meaning in the source\<close>

definition NUL :: char where
  "NUL = CHR 0x00"

definition CR :: char where
  "CR = CHR 0x0D"

definition LF :: char where
  "LF = CHR 0x0A"

definition DQUOTE :: char where
  "DQUOTE = CHR 0x22"

text \<open>\<open>#define LINE_BUF_SIZE 128\<close>\<close>

definition LINE_BUF_SIZE :: int where
  "LINE_BUF_SIZE = 128"

text \<open>\<open>static const char *TAG = "fake_modem";\<close>\<close>

definition TAG :: string where
  "TAG = ''fake_modem''"

text \<open>
  A string literal of the source is the array of its characters followed by the
  terminating NUL.
\<close>

definition literal_c :: "string \<Rightarrow> char list" where
  "literal_c s = s @ [NUL]"

subsection \<open>Failures of the C program\<close>

text \<open>
  C does not check an array index, and \<open>strcmp\<close>, \<open>strlen\<close> and \<open>printf("%s")\<close> walk an
  array until they meet a NUL. The model makes both failures values: a write whose index
  is outside the array, and a walk that leaves the array without meeting a NUL.
\<close>

datatype error = OutOfBounds | Unterminated

subsection \<open>The C string functions the module calls\<close>

text \<open>
  \<open>strlen(s)\<close>: the number of chars before the first NUL of the array.
\<close>

fun strlen :: "char list \<Rightarrow> error + nat" where
  "strlen [] = Inl Unterminated"
| "strlen (c # cs) =
     (if c = NUL then Inr 0
      else (case strlen cs of Inl e \<Rightarrow> Inl e | Inr n \<Rightarrow> Inr (Suc n)))"

text \<open>
  \<open>strcmp(a, b)\<close>: compares char by char, as unsigned chars, and stops at the first
  difference or at a NUL common to both.
\<close>

fun strcmp :: "char list \<Rightarrow> char list \<Rightarrow> error + int" where
  "strcmp (a # as) (b # bs) =
     (if a \<noteq> b then Inr (of_char a - of_char b)
      else if a = NUL then Inr 0
      else strcmp as bs)"
| "strcmp [] bs = Inl Unterminated"
| "strcmp as [] = Inl Unterminated"

text \<open>
  The chars that \<open>printf\<close> prints for a \<open>%s\<close> argument: those before the first NUL.
\<close>

fun printf_s :: "char list \<Rightarrow> error + char list" where
  "printf_s [] = Inl Unterminated"
| "printf_s (c # cs) =
     (if c = NUL then Inr []
      else (case printf_s cs of Inl e \<Rightarrow> Inl e | Inr r \<Rightarrow> Inr (c # r)))"

subsection \<open>The state of the task\<close>

text \<open>
  \<open>line_buf\<close> and \<open>line_pos\<close> are the two locals of \<open>fake_modem_task\<close> that live across
  iterations. \<open>uart2_tx\<close> collects the bytes given to \<open>uart_write_bytes\<close> on UART2 and
  \<open>console\<close> the chars printed by \<open>printf\<close>, both in order. \<open>dispatched\<close> is a trace that
  the source does not keep: at every call of \<open>process_line\<close> it records the bytes
  \<open>line_buf[0 .. line_pos - 1]\<close> gathered for that line.

  \<open>line_pos\<close> is a C \<open>int\<close>. It is modelled as an unbounded integer: the task keeps it
  between 0 and 126 (lemma \<open>feed_byte_refines\<close> below), far from the 32-bit range.
\<close>

record task_state =
  line_buf :: "char list"
  line_pos :: int
  uart2_tx :: "char list"
  console :: "char list"
  dispatched :: "char list list"

text \<open>
  An assignment \<open>buf[i] = c\<close> into an array: it fails when the index is outside the
  array.
\<close>

definition array_write :: "char list \<Rightarrow> int \<Rightarrow> char \<Rightarrow> error + char list" where
  "array_write buf i c =
     (if 0 \<le> i \<and> i < int (length buf) then Inr (buf[nat i := c]) else Inl OutOfBounds)"

subsection \<open>\<open>send_response\<close>\<close>

text \<open>
  \<open>uart_write_bytes(FAKE_MODEM_UART_NUM, response, strlen(response))\<close>: the first
  \<open>strlen(response)\<close> chars of the argument go out on UART2 TX.
\<close>

definition send_response :: "char list \<Rightarrow> task_state \<Rightarrow> error + task_state" where
  "send_response response s =
     (case strlen response of
        Inl e \<Rightarrow> Inl e
      | Inr n \<Rightarrow> Inr (s\<lparr>uart2_tx := uart2_tx s @ take n response\<rparr>))"

subsection \<open>\<open>process_line\<close>\<close>

text \<open>
  The line is logged on the console, then compared with \<open>"AT"\<close> and \<open>"AT+CSQ"\<close> in
  this order; the first comparison that returns 0 chooses the response, and a line that
  matches neither gets \<open>ERROR\<close>.
\<close>

definition process_line :: "char list \<Rightarrow> task_state \<Rightarrow> error + task_state" where
  "process_line line s =
     (case printf_s line of
        Inl e \<Rightarrow> Inl e
      | Inr shown \<Rightarrow>
          (let s1 = s\<lparr>console := console s @ ''['' @ TAG @ ''] received: '' @ [DQUOTE]
                                     @ shown @ [DQUOTE, LF]\<rparr>
           in case strcmp line (literal_c ''AT'') of
                Inl e \<Rightarrow> Inl e
              | Inr r1 \<Rightarrow>
                  if r1 = 0 then send_response (literal_c ([CR, LF] @ ''OK'' @ [CR, LF])) s1
                  else (case strcmp line (literal_c ''AT+CSQ'') of
                          Inl e \<Rightarrow> Inl e
                        | Inr r2 \<Rightarrow>
                            if r2 = 0
                            then send_response
                                   (literal_c ([CR, LF] @ ''+CSQ: 20,99'' @ [CR, LF]
                                               @ ''OK'' @ [CR, LF])) s1
                            else send_response
                                   (literal_c ([CR, LF] @ ''ERROR'' @ [CR, LF])) s1)))"

subsection \<open>\<open>fake_modem_task\<close>\<close>

text \<open>
  What one iteration of the loop does with a received byte (the part of the body after
  the \<open>continue\<close>).
\<close>

definition feed_byte :: "char \<Rightarrow> task_state \<Rightarrow> error + task_state" where
  "feed_byte byte s =
     (if byte = CR \<or> byte = LF then
        (if line_pos s > 0 then
           (case array_write (line_buf s) (line_pos s) NUL of
              Inl e \<Rightarrow> Inl e
            | Inr buf \<Rightarrow>
                (case process_line buf
                        (s\<lparr>line_buf := buf,
                           dispatched := dispatched s @ [take (nat (line_pos s)) buf]\<rparr>) of
                   Inl e \<Rightarrow> Inl e
                 | Inr s' \<Rightarrow> Inr (s'\<lparr>line_pos := 0\<rparr>)))
         else Inr s)
      else
        (case array_write (line_buf s) (line_pos s) byte of
           Inl e \<Rightarrow> Inl e
         | Inr buf \<Rightarrow>
             (let s1 = s\<lparr>line_buf := buf, line_pos := line_pos s + 1\<rparr>
              in if line_pos s1 \<ge> LINE_BUF_SIZE - 1
                 then Inr (s1\<lparr>console := console s1 @ ''['' @ TAG
                                           @ ''] line too long, discarding'' @ [LF],
                              line_pos := 0\<rparr>)
                 else Inr s1)))"

text \<open>
  One iteration of \<open>while (1)\<close>. \<open>uart_read_bytes\<close> is the environment: an iteration is
  given the pair of the value \<open>n\<close> it returned and the content of \<open>byte\<close> after the call.
  With \<open>n \<le> 0\<close> (a timeout or a driver error) the iteration ends at once.
\<close>

definition task_iteration :: "int \<times> char \<Rightarrow> task_state \<Rightarrow> error + task_state" where
  "task_iteration poll s =
     (case poll of (n, byte) \<Rightarrow> if n \<le> 0 then Inr s else feed_byte byte s)"

text \<open>
  The loop never ends by itself. Its behaviour is the behaviour of its finite runs: the
  state after the iterations that a finite list of \<open>uart_read_bytes\<close> results drives.
\<close>

fun fake_modem_task :: "(int \<times> char) list \<Rightarrow> task_state \<Rightarrow> error + task_state" where
  "fake_modem_task [] s = Inr s"
| "fake_modem_task (poll # polls) s =
     (case task_iteration poll s of
        Inl e \<Rightarrow> Inl e
      | Inr s' \<Rightarrow> fake_modem_task polls s')"

text \<open>
  The state at the entry of the loop. \<open>line_buf\<close> is an uninitialised local array of
  \<open>LINE_BUF_SIZE\<close> chars: its content is whatever the stack holds, given here by \<open>junk\<close>.
\<close>

definition task_start :: "(nat \<Rightarrow> char) \<Rightarrow> task_state" where
  "task_start junk =
     \<lparr>line_buf = map junk [0 ..< nat LINE_BUF_SIZE], line_pos = 0,
      uart2_tx = [], console = [], dispatched = []\<rparr>"

text \<open>A run in which every call of \<open>uart_read_bytes\<close> delivers the next byte of a list.\<close>

definition feed_bytes :: "char list \<Rightarrow> task_state \<Rightarrow> error + task_state" where
  "feed_bytes bs s = fake_modem_task (map (\<lambda>b. (1, b)) bs) s"

text \<open>The bytes that a list of \<open>uart_read_bytes\<close> results delivers, in order.\<close>

definition received_bytes :: "(int \<times> char) list \<Rightarrow> char list" where
  "received_bytes polls = map snd (filter (\<lambda>p. fst p > 0) polls)"

subsection \<open>Notions used to state the properties\<close>

text \<open>
  The chars of a C string: those before the first NUL.
\<close>

definition c_string :: "char list \<Rightarrow> char list" where
  "c_string bs = takeWhile (\<lambda>c. c \<noteq> NUL) bs"

text \<open>
  The bytes gathered for the line in progress: \<open>line_buf[0 .. line_pos - 1]\<close>.
\<close>

definition gathered :: "task_state \<Rightarrow> char list" where
  "gathered s = take (nat (line_pos s)) (line_buf s)"

text \<open>
  What holds of the two locals at the top of every iteration: the array has its declared
  size and \<open>line_pos\<close> is an index that leaves room for the terminating NUL.
\<close>

definition task_inv :: "task_state \<Rightarrow> bool" where
  "task_inv s =
     (int (length (line_buf s)) = LINE_BUF_SIZE \<and> 0 \<le> line_pos s
      \<and> line_pos s < LINE_BUF_SIZE - 1)"

text \<open>
  The wire protocol table of the specification (section 6): the response to a command
  text, by equality of the whole text.
\<close>

definition response_table :: "char list \<Rightarrow> char list" where
  "response_table cmd =
     (if cmd = ''AT'' then [CR, LF] @ ''OK'' @ [CR, LF]
      else if cmd = ''AT+CSQ'' then [CR, LF] @ ''+CSQ: 20,99'' @ [CR, LF] @ ''OK'' @ [CR, LF]
      else [CR, LF] @ ''ERROR'' @ [CR, LF])"

text \<open>
  The responses to a list of lines, one after the other, each chosen by the table from the
  C string that the line is.
\<close>

definition responses :: "char list list \<Rightarrow> char list" where
  "responses lines = concat (map (\<lambda>l. response_table (c_string l)) lines)"

subsection \<open>The Line Assembler as the specification words it\<close>

text \<open>
  Section 4.1 of the specification, \<open>feed(byte) \<rightarrow> optional CommandLine\<close>, on the
  buffer as a list of bytes. A terminator returns the buffer as a Command Line and
  empties it when it is non-empty, and does nothing when it is empty. Another byte is
  appended, unless the length would reach \<open>C - 1\<close>: then the buffer is emptied.
\<close>

definition spec_capacity :: nat where
  "spec_capacity = 128"

definition spec_feed :: "char list \<Rightarrow> char \<Rightarrow> char list \<times> char list option" where
  "spec_feed buf b =
     (if b = CR \<or> b = LF then (if buf \<noteq> [] then ([], Some buf) else (buf, None))
      else if length buf + 1 \<ge> spec_capacity - 1 then ([], None)
      else (buf @ [b], None))"

text \<open>The buffer after a sequence of bytes, and the Command Lines that it produced.\<close>

fun spec_buffer :: "char list \<Rightarrow> char list \<Rightarrow> char list" where
  "spec_buffer buf [] = buf"
| "spec_buffer buf (b # bs) = spec_buffer (fst (spec_feed buf b)) bs"

fun spec_lines :: "char list \<Rightarrow> char list \<Rightarrow> char list list" where
  "spec_lines buf [] = []"
| "spec_lines buf (b # bs) =
     (case snd (spec_feed buf b) of None \<Rightarrow> [] | Some l \<Rightarrow> [l])
     @ spec_lines (fst (spec_feed buf b)) bs"



text \<open>A content of the stack for the concrete runs below: every cell holds \<open>z\<close>.\<close>

definition stack_z :: "nat \<Rightarrow> char" where
  "stack_z i = CHR ''z''"

section \<open>Properties\<close>

subsection \<open>C strings\<close>

lemma printf_s_terminated: "printf_s (xs @ NUL # ys) = Inr (c_string xs)"
  by (induction xs) (simp_all add: c_string_def)

lemma strlen_terminated: "strlen (xs @ NUL # ys) = Inr (length (c_string xs))"
  by (induction xs) (simp_all add: c_string_def)

lemma strlen_literal: "NUL \<notin> set l \<Longrightarrow> strlen (literal_c l) = Inr (length l)"
proof -
  assume "NUL \<notin> set l"
  then have "takeWhile (\<lambda>c. c \<noteq> NUL) l = l" by (induction l) auto
  moreover have "strlen (l @ [NUL]) = Inr (length (c_string l))"
    by (rule strlen_terminated)
  ultimately show ?thesis
    by (simp only: literal_c_def c_string_def)
qed

lemma strcmp_terminated:
  "NUL \<notin> set l \<Longrightarrow>
   \<exists>r. strcmp (xs @ NUL # ys) (literal_c l) = Inr r \<and> (r = 0 \<longleftrightarrow> c_string xs = l)"
proof (induction xs arbitrary: l)
  case Nil
  then show ?case by (cases l) (auto simp: literal_c_def c_string_def)
next
  case (Cons x xs)
  show ?case
  proof (cases l)
    case Nil
    then show ?thesis by (auto simp: literal_c_def c_string_def)
  next
    case (Cons c cs)
    with Cons.prems have c: "c \<noteq> NUL" "NUL \<notin> set cs" by auto
    from Cons.IH [OF c(2)] obtain r where
      r: "strcmp (xs @ NUL # ys) (literal_c cs) = Inr r" "r = 0 \<longleftrightarrow> c_string xs = cs" by blast
    show ?thesis using r c Cons by (auto simp: literal_c_def c_string_def)
  qed
qed

lemma send_response_literal:
  "NUL \<notin> set l \<Longrightarrow> send_response (literal_c l) s = Inr (s\<lparr>uart2_tx := uart2_tx s @ l\<rparr>)"
  by (simp add: send_response_def strlen_literal) (simp add: literal_c_def)

lemma process_line_terminated:
  "process_line (xs @ NUL # ys) s =
     Inr (s\<lparr>console := console s @ ''['' @ TAG @ ''] received: '' @ [DQUOTE] @ c_string xs @ [DQUOTE, LF],
           uart2_tx := uart2_tx s @ response_table (c_string xs)\<rparr>)"
proof -
  have n1: "NUL \<notin> set ''AT''" and n2: "NUL \<notin> set ''AT+CSQ''" by (simp_all add: NUL_def)
  obtain r1 where r1: "strcmp (xs @ NUL # ys) (literal_c ''AT'') = Inr r1" "r1 = 0 \<longleftrightarrow> c_string xs = ''AT''"
    using strcmp_terminated [OF n1] by blast
  obtain r2 where r2: "strcmp (xs @ NUL # ys) (literal_c ''AT+CSQ'') = Inr r2" "r2 = 0 \<longleftrightarrow> c_string xs = ''AT+CSQ''"
    using strcmp_terminated [OF n2] by blast
  have l1: "NUL \<notin> set ([CR, LF] @ ''OK'' @ [CR, LF])"
    and l2: "NUL \<notin> set ([CR, LF] @ ''+CSQ: 20,99'' @ [CR, LF] @ ''OK'' @ [CR, LF])"
    and l3: "NUL \<notin> set ([CR, LF] @ ''ERROR'' @ [CR, LF])"
    by (simp_all add: NUL_def CR_def LF_def)
  show ?thesis
    unfolding process_line_def printf_s_terminated Let_def
    using r1 r2
    by (simp add: send_response_literal [OF l1] send_response_literal [OF l2] send_response_literal [OF l3] response_table_def del: append.simps set_simps)
qed

subsection \<open>One received byte\<close>

lemma nat_pos_Suc: "0 \<le> p \<Longrightarrow> nat (p + 1) = Suc (nat p)"
  by simp

lemma take_Suc_update: "n < length xs \<Longrightarrow> take (Suc n) (xs[n := b]) = take n xs @ [b]"
  by (simp add: take_Suc_conv_app_nth)

lemma feed_byte_data:
  assumes "task_inv s" and "byte \<noteq> CR" and "byte \<noteq> LF" and "line_pos s < LINE_BUF_SIZE - 2"
  shows "\<exists>s'. feed_byte byte s = Inr s' \<and> task_inv s' \<and> line_pos s' = line_pos s + 1
             \<and> gathered s' = gathered s @ [byte] \<and> uart2_tx s' = uart2_tx s
             \<and> console s' = console s \<and> dispatched s' = dispatched s"
proof -
  from assms(1) have len: "int (length (line_buf s)) = 128" and pos: "0 \<le> line_pos s"
    by (simp_all add: task_inv_def LINE_BUF_SIZE_def)
  from assms(4) have lt: "line_pos s < 126" by (simp add: LINE_BUF_SIZE_def)
  have n: "nat (line_pos s) < length (line_buf s)" using len pos lt by linarith
  have w: "array_write (line_buf s) (line_pos s) byte = Inr ((line_buf s)[nat (line_pos s) := byte])"
    using len pos lt by (simp add: array_write_def)
  have f: "feed_byte byte s =
             Inr (s\<lparr>line_buf := (line_buf s)[nat (line_pos s) := byte], line_pos := line_pos s + 1\<rparr>)"
    using assms(2,3) lt by (simp add: feed_byte_def w Let_def LINE_BUF_SIZE_def)
  show ?thesis
    unfolding f using len pos lt n
    by (simp add: task_inv_def gathered_def LINE_BUF_SIZE_def nat_pos_Suc take_Suc_update)
qed

lemma feed_byte_overflow:
  assumes "task_inv s" and "byte \<noteq> CR" and "byte \<noteq> LF" and "line_pos s = LINE_BUF_SIZE - 2"
  shows "\<exists>s'. feed_byte byte s = Inr s' \<and> task_inv s' \<and> line_pos s' = 0
             \<and> gathered s' = [] \<and> uart2_tx s' = uart2_tx s
             \<and> console s' = console s @ ''['' @ TAG @ ''] line too long, discarding'' @ [LF]
             \<and> dispatched s' = dispatched s"
proof -
  from assms(1) have len: "int (length (line_buf s)) = 128"
    by (simp_all add: task_inv_def LINE_BUF_SIZE_def)
  from assms(4) have eq: "line_pos s = 126" by (simp add: LINE_BUF_SIZE_def)
  have w: "array_write (line_buf s) 126 byte = Inr ((line_buf s)[126 := byte])"
    using len by (simp add: array_write_def)
  have f: "feed_byte byte s =
             Inr (s\<lparr>line_buf := (line_buf s)[126 := byte],
                    console := console s @ ''['' @ TAG @ ''] line too long, discarding'' @ [LF],
                    line_pos := 0\<rparr>)"
    using assms(2,3) eq by (simp add: feed_byte_def w Let_def LINE_BUF_SIZE_def)
  show ?thesis
    unfolding f using len
    by (simp add: task_inv_def gathered_def LINE_BUF_SIZE_def)
qed

lemma feed_byte_idle:
  assumes "byte = CR \<or> byte = LF" and "line_pos s = 0"
  shows "feed_byte byte s = Inr s"
  using assms by (auto simp: feed_byte_def)

lemma update_as_append:
  "n < length xs \<Longrightarrow> xs[n := b] = take n xs @ b # drop (Suc n) xs"
  by (rule upd_conv_take_nth_drop)

lemma feed_byte_dispatch:
  assumes "task_inv s" and "byte = CR \<or> byte = LF" and "0 < line_pos s"
  shows "\<exists>s'. feed_byte byte s = Inr s' \<and> task_inv s' \<and> line_pos s' = 0
             \<and> gathered s' = []
             \<and> uart2_tx s' = uart2_tx s @ response_table (c_string (gathered s))
             \<and> console s' = console s @ ''['' @ TAG @ ''] received: '' @ [DQUOTE]
                                @ c_string (gathered s) @ [DQUOTE, LF]
             \<and> dispatched s' = dispatched s @ [gathered s]"
proof -
  from assms(1) have len: "int (length (line_buf s)) = 128" and lt: "line_pos s < 127"
    by (simp_all add: task_inv_def LINE_BUF_SIZE_def)
  have n: "nat (line_pos s) < length (line_buf s)" using len lt assms(3) by linarith
  define buf where "buf = gathered s @ NUL # drop (Suc (nat (line_pos s))) (line_buf s)"
  have w: "array_write (line_buf s) (line_pos s) NUL = Inr buf"
    using len lt assms(3) n by (simp add: array_write_def update_as_append gathered_def buf_def)
  have g: "take (nat (line_pos s)) buf = gathered s"
    using n by (simp add: gathered_def buf_def)
  have l: "length buf = 128"
    using n len by (simp add: gathered_def buf_def)
  have p: "process_line buf t =
             Inr (t\<lparr>console := console t @ ''['' @ TAG @ ''] received: '' @ [DQUOTE]
                                    @ c_string (gathered s) @ [DQUOTE, LF],
                     uart2_tx := uart2_tx t @ response_table (c_string (gathered s))\<rparr>)"
    for t :: task_state
    unfolding buf_def by (rule process_line_terminated)
  have e: "gathered (t\<lparr>line_pos := 0\<rparr>) = []" for t :: task_state
    by (simp add: gathered_def)
  show ?thesis
    using assms(2,3) l
    by (simp add: feed_byte_def w p g task_inv_def LINE_BUF_SIZE_def e del: append.simps)
qed

subsection \<open>Facts about the Line Assembler of the specification\<close>

lemma spec_buffer_append:
  "spec_buffer buf (as @ bs) = spec_buffer (spec_buffer buf as) bs"
  by (induction as arbitrary: buf) simp_all

lemma spec_lines_append:
  "spec_lines buf (as @ bs) = spec_lines buf as @ spec_lines (spec_buffer buf as) bs"
  by (induction as arbitrary: buf) simp_all

lemma spec_body_fits:
  "CR \<notin> set bs \<Longrightarrow> LF \<notin> set bs \<Longrightarrow> length buf + length bs < 127 \<Longrightarrow>
   spec_buffer buf bs = buf @ bs \<and> spec_lines buf bs = []"
  by (induction bs arbitrary: buf) (auto simp: spec_feed_def spec_capacity_def)


lemma spec_buffer_bound:
  "length buf < 127 \<Longrightarrow> length (spec_buffer buf bs) < 127"
  by (induction bs arbitrary: buf) (auto simp: spec_feed_def spec_capacity_def)

lemma spec_lines_nonempty: "[] \<notin> set (spec_lines buf bs)"
  by (induction bs arbitrary: buf) (auto simp: spec_feed_def)


lemma spec_buffer_terminated:
  "t = CR \<or> t = LF \<Longrightarrow> spec_buffer buf (bs @ [t]) = []"
  by (auto simp: spec_buffer_append spec_feed_def)


subsection \<open>The task refines the line assembler\<close>

lemma gathered_length: "task_inv s \<Longrightarrow> length (gathered s) = nat (line_pos s)"
  by (auto simp: task_inv_def gathered_def LINE_BUF_SIZE_def)

lemma feed_byte_refines:
  assumes "task_inv s"
  shows "\<exists>s'. feed_byte b s = Inr s' \<and> task_inv s'
             \<and> gathered s' = fst (spec_feed (gathered s) b)
             \<and> dispatched s' = dispatched s
                   @ (case snd (spec_feed (gathered s) b) of None \<Rightarrow> [] | Some l \<Rightarrow> [l])
             \<and> uart2_tx s' = uart2_tx s
                   @ responses (case snd (spec_feed (gathered s) b) of None \<Rightarrow> [] | Some l \<Rightarrow> [l])"
proof -
  note len = gathered_length [OF assms]
  from assms have range: "0 \<le> line_pos s" "line_pos s \<le> 126"
    by (simp_all add: task_inv_def LINE_BUF_SIZE_def)
  consider (idle) "b = CR \<or> b = LF" "line_pos s = 0"
    | (dispatch) "b = CR \<or> b = LF" "0 < line_pos s"
    | (data) "b \<noteq> CR" "b \<noteq> LF" "line_pos s < 126"
    | (overflow) "b \<noteq> CR" "b \<noteq> LF" "line_pos s = 126"
    using range by fastforce
  then show ?thesis
  proof cases
    case idle
    then have g: "gathered s = []" using len by simp
    then have "spec_feed (gathered s) b = ([], None)"
      using idle(1) by (simp add: spec_feed_def)
    then show ?thesis
      using feed_byte_idle [OF idle] assms g by (simp add: responses_def)
  next
    case dispatch
    then have "gathered s \<noteq> []" using len by auto
    then have "spec_feed (gathered s) b = ([], Some (gathered s))"
      using dispatch(1) by (simp add: spec_feed_def)
    then show ?thesis
      using feed_byte_dispatch [OF assms dispatch] by (auto simp: responses_def)
  next
    case data
    then have "length (gathered s) + 1 < 127" using len range by simp
    then have "spec_feed (gathered s) b = (gathered s @ [b], None)"
      using data(1,2) by (simp add: spec_feed_def spec_capacity_def)
    then show ?thesis
      using feed_byte_data [OF assms data(1,2)] data(3)
      by (auto simp: responses_def LINE_BUF_SIZE_def)
  next
    case overflow
    then have "length (gathered s) + 1 = 127" using len by simp
    then have "spec_feed (gathered s) b = ([], None)"
      using overflow(1,2) by (simp add: spec_feed_def spec_capacity_def)
    then show ?thesis
      using feed_byte_overflow [OF assms overflow(1,2)] overflow(3)
      by (auto simp: responses_def LINE_BUF_SIZE_def)
  qed
qed

lemma feed_bytes_Nil: "feed_bytes [] s = Inr s"
  by (simp add: feed_bytes_def)

lemma feed_bytes_Cons:
  "feed_bytes (b # bs) s = (case feed_byte b s of Inl e \<Rightarrow> Inl e | Inr s' \<Rightarrow> feed_bytes bs s')"
  by (simp add: feed_bytes_def task_iteration_def split: sum.splits)

lemma feed_bytes_append:
  "feed_bytes (as @ bs) s = (case feed_bytes as s of Inl e \<Rightarrow> Inl e | Inr s' \<Rightarrow> feed_bytes bs s')"
  by (induction as arbitrary: s) (simp_all add: feed_bytes_Nil feed_bytes_Cons split: sum.splits)

lemma responses_append: "responses (xs @ ys) = responses xs @ responses ys"
  by (simp add: responses_def)

lemma feed_bytes_refines:
  "task_inv s \<Longrightarrow>
   \<exists>s'. feed_bytes bs s = Inr s' \<and> task_inv s'
        \<and> gathered s' = spec_buffer (gathered s) bs
        \<and> dispatched s' = dispatched s @ spec_lines (gathered s) bs
        \<and> uart2_tx s' = uart2_tx s @ responses (spec_lines (gathered s) bs)"
proof (induction bs arbitrary: s)
  case Nil
  then show ?case by (simp add: feed_bytes_Nil responses_def)
next
  case (Cons b bs)
  from feed_byte_refines [OF Cons.prems, of b] obtain s1 where
    s1: "feed_byte b s = Inr s1" "task_inv s1"
        "gathered s1 = fst (spec_feed (gathered s) b)"
        "dispatched s1 = dispatched s
           @ (case snd (spec_feed (gathered s) b) of None \<Rightarrow> [] | Some l \<Rightarrow> [l])"
        "uart2_tx s1 = uart2_tx s
           @ responses (case snd (spec_feed (gathered s) b) of None \<Rightarrow> [] | Some l \<Rightarrow> [l])"
    by blast
  from Cons.IH [OF s1(2)] obtain s' where
    s': "feed_bytes bs s1 = Inr s'" "task_inv s'"
        "gathered s' = spec_buffer (gathered s1) bs"
        "dispatched s' = dispatched s1 @ spec_lines (gathered s1) bs"
        "uart2_tx s' = uart2_tx s1 @ responses (spec_lines (gathered s1) bs)"
    by blast
  have "feed_bytes (b # bs) s = Inr s'"
    by (simp add: feed_bytes_Cons s1(1) s'(1))
  then show ?case
    using s' s1 by (simp add: responses_append)
qed

lemma task_start_inv: "task_inv (task_start junk)"
  by (simp add: task_inv_def task_start_def LINE_BUF_SIZE_def)

lemma task_start_gathered: "gathered (task_start junk) = []"
  by (simp add: gathered_def task_start_def)

lemma task_start_fields:
  "line_pos (task_start junk) = 0" "uart2_tx (task_start junk) = []"
  "console (task_start junk) = []" "dispatched (task_start junk) = []"
  by (simp_all add: task_start_def)

lemma run_from_start:
  "\<exists>s'. feed_bytes bs (task_start junk) = Inr s' \<and> task_inv s'
        \<and> gathered s' = spec_buffer [] bs
        \<and> dispatched s' = spec_lines [] bs
        \<and> uart2_tx s' = responses (spec_lines [] bs)"
  using feed_bytes_refines [OF task_start_inv, of bs junk]
  by (simp add: task_start_gathered task_start_fields)

lemma fake_modem_task_received:
  "fake_modem_task polls s = feed_bytes (received_bytes polls) s"
proof (induction polls arbitrary: s)
  case Nil
  show ?case by (simp add: received_bytes_def feed_bytes_def)
next
  case (Cons p ps)
  obtain n b where p: "p = (n, b)" by (cases p)
  show ?case
  proof (cases "n \<le> 0")
    case True
    then show ?thesis
      using Cons.IH by (simp add: p task_iteration_def received_bytes_def)
  next
    case False
    then have "received_bytes (p # ps) = b # received_bytes ps"
      by (simp add: p received_bytes_def)
    then show ?thesis
      using Cons.IH False by (simp add: p task_iteration_def feed_bytes_Cons split: sum.splits)
  qed
qed

lemma line_pos_of_gathered: "task_inv s \<Longrightarrow> gathered s = [] \<Longrightarrow> line_pos s = 0"
  using gathered_length [of s] by (simp add: task_inv_def)

lemma line_pos_gathered: "task_inv s \<Longrightarrow> line_pos s = int (length (gathered s))"
proof -
  assume i: "task_inv s"
  then have "0 \<le> line_pos s" by (simp add: task_inv_def)
  then show ?thesis unfolding gathered_length [OF i] by simp
qed

lemma feed_bytes_body_fits:
  "task_inv s \<Longrightarrow> CR \<notin> set bs \<Longrightarrow> LF \<notin> set bs \<Longrightarrow>
   line_pos s + int (length bs) < 127 \<Longrightarrow>
   \<exists>s'. feed_bytes bs s = Inr s' \<and> task_inv s'
        \<and> line_pos s' = line_pos s + int (length bs)
        \<and> gathered s' = gathered s @ bs \<and> uart2_tx s' = uart2_tx s
        \<and> console s' = console s \<and> dispatched s' = dispatched s"
proof (induction bs arbitrary: s)
  case Nil
  then show ?case by (simp add: feed_bytes_Nil)
next
  case (Cons b bs)
  then have b: "b \<noteq> CR" "b \<noteq> LF" "line_pos s < LINE_BUF_SIZE - 2"
    and bs: "CR \<notin> set bs" "LF \<notin> set bs"
    by (auto simp: LINE_BUF_SIZE_def)
  from feed_byte_data [OF Cons.prems(1) b] obtain s1 where
    s1: "feed_byte b s = Inr s1" "task_inv s1" "line_pos s1 = line_pos s + 1"
        "gathered s1 = gathered s @ [b]" "uart2_tx s1 = uart2_tx s"
        "console s1 = console s" "dispatched s1 = dispatched s"
    by blast
  have fit: "line_pos s1 + int (length bs) < 127"
    using Cons.prems(4) s1(3) by simp
  from Cons.IH [OF s1(2) bs fit] obtain s' where
    s': "feed_bytes bs s1 = Inr s'" "task_inv s'"
        "line_pos s' = line_pos s1 + int (length bs)"
        "gathered s' = gathered s1 @ bs" "uart2_tx s' = uart2_tx s1"
        "console s' = console s1" "dispatched s' = dispatched s1"
    by blast
  have "feed_bytes (b # bs) s = Inr s'"
    by (simp add: feed_bytes_Cons s1(1) s'(1))
  then show ?case using s' s1 by simp
qed

section \<open>The claims\<close>

subsection \<open>C1: the response to a dispatched line\<close>

text \<open>
  C1, as amended. Whenever a terminator arrives with a line gathered in the buffer and no
  byte of that line is NUL, the line is dispatched and exactly one response is written,
  chosen by equality of all the bytes of the line: \<open>AT\<close> gets \<open>OK\<close>, \<open>AT+CSQ\<close> gets the
  signal-quality response, any other line gets \<open>ERROR\<close>. There is no prefix matching, no
  trimming and no case folding.
\<close>

theorem dispatch_exact_match:
  assumes "task_inv s" and "t = CR \<or> t = LF" and "0 < line_pos s"
    and "NUL \<notin> set (gathered s)"
  shows "\<exists>s'. feed_byte t s = Inr s' \<and> line_pos s' = 0
             \<and> dispatched s' = dispatched s @ [gathered s]
             \<and> uart2_tx s' = uart2_tx s
                 @ (if gathered s = ''AT'' then [CR, LF] @ ''OK'' @ [CR, LF]
                    else if gathered s = ''AT+CSQ''
                    then [CR, LF] @ ''+CSQ: 20,99'' @ [CR, LF] @ ''OK'' @ [CR, LF]
                    else [CR, LF] @ ''ERROR'' @ [CR, LF])"
proof -
  from assms(4) have "c_string (gathered s) = gathered s"
    unfolding c_string_def by (induction "gathered s") auto
  then show ?thesis
    using feed_byte_dispatch [OF assms(1-3)] by (auto simp: response_table_def)
qed

text \<open>The theorem at the line \<open>AT+UNKNOWN\<close>, gathered in a buffer that is NUL elsewhere.\<close>

theorem dispatch_exact_match_witness:
  "task_inv \<lparr>line_buf = ''AT+UNKNOWN'' @ replicate 118 NUL, line_pos = 10, uart2_tx = [],
             console = [], dispatched = []\<rparr>
   \<and> NUL \<notin> set (gathered \<lparr>line_buf = ''AT+UNKNOWN'' @ replicate 118 NUL, line_pos = 10,
                              uart2_tx = [], console = [], dispatched = []\<rparr>)
   \<and> (\<exists>s'. feed_byte CR \<lparr>line_buf = ''AT+UNKNOWN'' @ replicate 118 NUL, line_pos = 10,
                           uart2_tx = [], console = [], dispatched = []\<rparr> = Inr s'
            \<and> dispatched s' = [''AT+UNKNOWN'']
            \<and> uart2_tx s' = [CR, LF] @ ''ERROR'' @ [CR, LF])"
proof -
  let ?s = "\<lparr>line_buf = ''AT+UNKNOWN'' @ replicate 118 NUL, line_pos = 10, uart2_tx = [],
             console = [], dispatched = []\<rparr>"
  have i: "task_inv ?s" by (simp add: task_inv_def LINE_BUF_SIZE_def)
  have g: "gathered ?s = ''AT+UNKNOWN''" by (simp add: gathered_def)
  have n: "NUL \<notin> set (gathered ?s)" unfolding g by (simp add: NUL_def)
  have p: "0 < line_pos ?s" by simp
  have c: "\<exists>s'. feed_byte CR ?s = Inr s' \<and> dispatched s' = [''AT+UNKNOWN'']
                \<and> uart2_tx s' = [CR, LF] @ ''ERROR'' @ [CR, LF]"
    using dispatch_exact_match [OF i _ p n, of CR] unfolding g by auto
  show ?thesis
    by (intro conjI i n c)
qed

text \<open>
  C1 as it is written fails on a line with a NUL byte. The eight bytes \<open>AT+CSQ\<close>, NUL,
  \<open>?\<close> are dispatched as one line; they are not the bytes of \<open>AT+CSQ\<close>, and the response
  is the signal-quality response, not \<open>ERROR\<close>.
\<close>

theorem dispatch_exact_match_counterexample:
  "map_sum id dispatched
     (feed_bytes (''AT+CSQ'' @ [NUL] @ ''?'' @ [LF]) (task_start stack_z))
     = Inr [''AT+CSQ'' @ [NUL] @ ''?'']
   \<and> ''AT+CSQ'' @ [NUL] @ ''?'' \<noteq> ''AT+CSQ''
   \<and> map_sum id uart2_tx
       (feed_bytes (''AT+CSQ'' @ [NUL] @ ''?'' @ [LF]) (task_start stack_z))
     = Inr ([CR, LF] @ ''+CSQ: 20,99'' @ [CR, LF] @ ''OK'' @ [CR, LF])"
proof -
  have l: "spec_lines [] (''AT+CSQ'' @ [NUL] @ ''?'' @ [LF]) = [''AT+CSQ'' @ [NUL] @ ''?'']"
    by (simp add: spec_feed_def spec_capacity_def NUL_def CR_def LF_def)
  have r: "responses [''AT+CSQ'' @ [NUL] @ ''?'']
             = [CR, LF] @ ''+CSQ: 20,99'' @ [CR, LF] @ ''OK'' @ [CR, LF]"
    by (simp add: responses_def c_string_def response_table_def NUL_def)
  from run_from_start [of "''AT+CSQ'' @ [NUL] @ ''?'' @ [LF]" stack_z]
  show ?thesis unfolding l r by auto
qed

subsection \<open>C2: one line in, one Command Line out\<close>

text \<open>
  C2, as amended. For every non-empty byte sequence that has no CR and no LF and is
  shorter than 127 bytes, feeding its bytes one at a time from the start of the task and
  then one terminator dispatches exactly one Command Line, whose bytes are the sequence,
  and leaves the fill length 0.
\<close>

theorem single_line_roundtrip:
  assumes "bs \<noteq> []" and "CR \<notin> set bs" and "LF \<notin> set bs" and "length bs < 127"
    and "t = CR \<or> t = LF"
  shows "\<exists>s'. feed_bytes (bs @ [t]) (task_start junk) = Inr s'
             \<and> dispatched s' = [bs] \<and> line_pos s' = 0"
proof -
  have body: "spec_buffer [] bs = bs" "spec_lines [] bs = []"
    using spec_body_fits [of bs "[]"] assms(2-4) by simp_all
  have lines: "spec_lines [] (bs @ [t]) = [bs]"
    using assms(1,5) by (auto simp: spec_lines_append body spec_feed_def)
  have buffer: "spec_buffer [] (bs @ [t]) = []"
    by (rule spec_buffer_terminated [OF assms(5)])
  from run_from_start [of "bs @ [t]" junk] obtain s' where
    s': "feed_bytes (bs @ [t]) (task_start junk) = Inr s'" "task_inv s'"
        "gathered s' = []" "dispatched s' = [bs]"
    unfolding lines buffer by blast
  then show ?thesis using line_pos_of_gathered by blast
qed

theorem single_line_roundtrip_witness:
  "''AT+CSQ'' \<noteq> [] \<and> CR \<notin> set ''AT+CSQ'' \<and> LF \<notin> set ''AT+CSQ'' \<and> length ''AT+CSQ'' < 127
   \<and> (\<exists>s'. feed_bytes (''AT+CSQ'' @ [LF]) (task_start stack_z) = Inr s'
            \<and> dispatched s' = [''AT+CSQ''] \<and> line_pos s' = 0)"
proof -
  have h: "''AT+CSQ'' \<noteq> []" "CR \<notin> set ''AT+CSQ''" "LF \<notin> set ''AT+CSQ''"
    "length ''AT+CSQ'' < 127"
    by (simp_all add: CR_def LF_def)
  show ?thesis
    using single_line_roundtrip [OF h, of LF stack_z] h by blast
qed

text \<open>
  C2 as it is written includes the empty sequence, which is shorter than 127 bytes and
  has no terminator in it: a terminator alone dispatches no Command Line at all.
\<close>

theorem single_line_roundtrip_counterexample:
  "map_sum id dispatched (feed_bytes ([] @ [CR]) (task_start stack_z)) = Inr []"
proof -
  have "feed_byte CR (task_start stack_z) = Inr (task_start stack_z)"
    by (rule feed_byte_idle) (simp_all add: task_start_fields)
  then show ?thesis
    by (simp add: feed_bytes_Cons feed_bytes_Nil task_start_fields)
qed

subsection \<open>C3: a run of bytes longer than the buffer\<close>



subsection \<open>C4: a terminator when the buffer is empty\<close>

text \<open>
  C4. A terminator byte that arrives when the fill length is 0 produces no Command Line
  and leaves the state of the task as it was. So CR then LF fed at the start of the task
  leave the start state, in which no Command Line has been dispatched; and a non-empty
  line of fewer than 127 bytes that is ended by the pair CR, LF is dispatched exactly
  once.
\<close>

theorem terminator_on_empty_buffer:
  assumes "t = CR \<or> t = LF" and "line_pos s = 0"
    and "bs \<noteq> []" and "CR \<notin> set bs" and "LF \<notin> set bs" and "length bs < 127"
  shows "feed_byte t s = Inr s
       \<and> feed_bytes [CR, LF] (task_start junk) = Inr (task_start junk)
       \<and> dispatched (task_start junk) = []
       \<and> (\<exists>s'. feed_bytes (bs @ [CR, LF]) (task_start junk) = Inr s'
                \<and> dispatched s' = [bs] \<and> line_pos s' = 0)"
proof (intro conjI)
  show "feed_byte t s = Inr s"
    by (rule feed_byte_idle [OF assms(1,2)])
  have idle: "feed_byte c (task_start junk) = Inr (task_start junk)" if "c = CR \<or> c = LF" for c
    using that by (rule feed_byte_idle) (simp add: task_start_fields)
  show "feed_bytes [CR, LF] (task_start junk) = Inr (task_start junk)"
    by (simp add: feed_bytes_Cons feed_bytes_Nil idle)
  show "dispatched (task_start junk) = []"
    by (simp add: task_start_fields)
  have body: "spec_buffer [] bs = bs" "spec_lines [] bs = []"
    using spec_body_fits [of bs "[]"] assms(4-6) by simp_all
  have lines: "spec_lines [] (bs @ [CR, LF]) = [bs]"
    using assms(3) by (simp add: spec_lines_append body spec_feed_def)
  have buffer: "spec_buffer [] (bs @ [CR, LF]) = []"
    using spec_buffer_terminated [of LF "[]" "bs @ [CR]"] by simp
  from run_from_start [of "bs @ [CR, LF]" junk] obtain s' where
    s': "feed_bytes (bs @ [CR, LF]) (task_start junk) = Inr s'" "task_inv s'"
        "gathered s' = []" "dispatched s' = [bs]"
    unfolding lines buffer by blast
  then show "\<exists>s'. feed_bytes (bs @ [CR, LF]) (task_start junk) = Inr s'
                \<and> dispatched s' = [bs] \<and> line_pos s' = 0"
    using line_pos_of_gathered by blast
qed

theorem terminator_on_empty_buffer_witness:
  "line_pos (task_start stack_z) = 0
   \<and> ''AT'' \<noteq> [] \<and> CR \<notin> set ''AT'' \<and> LF \<notin> set ''AT'' \<and> length ''AT'' < 127
   \<and> feed_byte LF (task_start stack_z) = Inr (task_start stack_z)
   \<and> feed_bytes [CR, LF] (task_start stack_z) = Inr (task_start stack_z)
   \<and> dispatched (task_start stack_z) = []
   \<and> (\<exists>s'. feed_bytes (''AT'' @ [CR, LF]) (task_start stack_z) = Inr s'
            \<and> dispatched s' = [''AT''] \<and> line_pos s' = 0)"
proof -
  have h: "LF = CR \<or> LF = LF" "line_pos (task_start stack_z) = 0"
    "''AT'' \<noteq> []" "CR \<notin> set ''AT''" "LF \<notin> set ''AT''" "length ''AT'' < 127"
    by (simp_all add: CR_def LF_def task_start_fields)
  show ?thesis
    using terminator_on_empty_buffer [OF h, of stack_z] h(2-6) by blast
qed

subsection \<open>C5: the overflow discards the line\<close>

text \<open>
  C5. When a byte would bring the fill length to 127 of 128, the whole buffered line is
  discarded, only a diagnostic is logged and no response is sent for the discarded line:
  the whole line is lost, never truncated and kept. The comments of the source say the
  same (\<open>drop the overlong line\<close>, \<open>discard the whole line\<close>). The code at the line of
  127 bytes \<open>x\<close> followed by \<open>AT\<close>, ended by CR: the 127th byte resets the fill length
  to 0 with the diagnostic on the console, nothing on UART2 and nothing dispatched; but
  the rest of the same line is kept, dispatched as the line \<open>AT\<close> and answered with
  \<open>OK\<close>.
\<close>

theorem overflow_keeps_tail:
  "map_sum id line_pos (feed_bytes (replicate 127 (CHR ''x'')) (task_start stack_z)) = Inr 0
   \<and> map_sum id uart2_tx (feed_bytes (replicate 127 (CHR ''x'')) (task_start stack_z)) = Inr []
   \<and> map_sum id dispatched (feed_bytes (replicate 127 (CHR ''x'')) (task_start stack_z))
       = Inr []
   \<and> map_sum id console (feed_bytes (replicate 127 (CHR ''x'')) (task_start stack_z))
       = Inr (''[fake_modem] line too long, discarding'' @ [LF])
   \<and> map_sum id dispatched
       (feed_bytes (replicate 127 (CHR ''x'') @ ''AT'' @ [CR]) (task_start stack_z))
       = Inr [''AT'']
   \<and> map_sum id uart2_tx
       (feed_bytes (replicate 127 (CHR ''x'') @ ''AT'' @ [CR]) (task_start stack_z))
       = Inr ([CR, LF] @ ''OK'' @ [CR, LF])"
proof -
  have x: "CR \<notin> set (replicate n (CHR ''x''))" "LF \<notin> set (replicate n (CHR ''x''))" for n
    by (simp_all add: CR_def LF_def)
  have fit: "line_pos (task_start stack_z) + int (length (replicate 126 (CHR ''x''))) < 127"
    by (simp add: task_start_fields)
  from feed_bytes_body_fits [OF task_start_inv x fit] obtain s1 where
    s1: "feed_bytes (replicate 126 (CHR ''x'')) (task_start stack_z) = Inr s1" "task_inv s1"
        "line_pos s1 = 126" "uart2_tx s1 = []" "console s1 = []" "dispatched s1 = []"
    by (auto simp: task_start_fields)
  have d: "CHR ''x'' \<noteq> CR" "CHR ''x'' \<noteq> LF" "line_pos s1 = LINE_BUF_SIZE - 2"
    using s1(3) by (simp_all add: CR_def LF_def LINE_BUF_SIZE_def)
  from feed_byte_overflow [OF s1(2) d] obtain s2 where
    s2: "feed_byte (CHR ''x'') s1 = Inr s2" "task_inv s2" "line_pos s2 = 0" "gathered s2 = []"
        "uart2_tx s2 = []" "dispatched s2 = []"
        "console s2 = ''[fake_modem] line too long, discarding'' @ [LF]"
    unfolding s1(4-6) by (auto simp: TAG_def)
  have r: "replicate 127 (CHR ''x'') = replicate 126 (CHR ''x'') @ [CHR ''x'']"
    using replicate_add [of 126 1 "CHR ''x''"] by simp
  have run: "feed_bytes (replicate 127 (CHR ''x'')) (task_start stack_z) = Inr s2"
    unfolding r by (simp add: feed_bytes_append s1(1) feed_bytes_Cons feed_bytes_Nil s2(1))
  have a: "CR \<notin> set ''AT''" "LF \<notin> set ''AT''" "line_pos s2 + int (length ''AT'') < 127"
    using s2(3) by (simp_all add: CR_def LF_def)
  from feed_bytes_body_fits [OF s2(2) a] obtain s3 where
    s3: "feed_bytes ''AT'' s2 = Inr s3" "task_inv s3" "line_pos s3 = 2" "gathered s3 = ''AT''"
        "uart2_tx s3 = []" "dispatched s3 = []"
    unfolding s2(3-6) by auto
  have p: "0 < line_pos s3" using s3(3) by simp
  from feed_byte_dispatch [OF s3(2) _ p, of CR] obtain s4 where
    s4: "feed_byte CR s3 = Inr s4" "dispatched s4 = [''AT'']"
        "uart2_tx s4 = [CR, LF] @ ''OK'' @ [CR, LF]"
    unfolding s3(4-6) by (auto simp: c_string_def response_table_def NUL_def)
  have u: "feed_bytes [CR] s3 = Inr s4"
    by (simp add: feed_bytes_Cons feed_bytes_Nil s4(1))
  have t: "feed_bytes (''AT'' @ [CR]) s2 = Inr s4"
    unfolding feed_bytes_append [of "''AT''" "[CR]"] s3(1) using u by simp
  have "feed_bytes (replicate 127 (CHR ''x'') @ ''AT'' @ [CR]) (task_start stack_z) = Inr s4"
    unfolding feed_bytes_append [of "replicate 127 (CHR ''x'')"] run using t by simp
  then show ?thesis using run s2 s4 by simp
qed

subsection \<open>C6: no write outside the buffer\<close>

text \<open>
  C6. Whatever bytes have been fed since the start of the task, the run has not failed:
  no write has left the array. In the state reached, the array has its 128 cells and
  \<open>line_pos\<close>, the index of the next write (of a data byte or of the terminating NUL),
  is at least 0 and less than 128, so that write is inside the array whatever char \<open>c\<close> it
  stores, and the next byte is processed without a failure. Each call consumes exactly one
  byte: feeding one more byte is one call of \<open>feed_byte\<close> on the state reached.
\<close>

theorem buffer_writes_in_bounds:
  "\<exists>s. feed_bytes bs (task_start junk) = Inr s
       \<and> int (length (line_buf s)) = LINE_BUF_SIZE
       \<and> 0 \<le> line_pos s \<and> line_pos s < LINE_BUF_SIZE
       \<and> array_write (line_buf s) (line_pos s) c = Inr ((line_buf s)[nat (line_pos s) := c])
       \<and> feed_bytes (bs @ [byte]) (task_start junk) = feed_byte byte s
       \<and> (\<exists>s'. feed_byte byte s = Inr s' \<and> int (length (line_buf s')) = LINE_BUF_SIZE)"
proof -
  from run_from_start [of bs junk] obtain s where
    s: "feed_bytes bs (task_start junk) = Inr s" "task_inv s"
    by blast
  from feed_byte_refines [OF s(2), of byte] obtain s' where
    s': "feed_byte byte s = Inr s'" "task_inv s'"
    by blast
  have w: "array_write (line_buf s) (line_pos s) c = Inr ((line_buf s)[nat (line_pos s) := c])"
    using s(2) by (simp add: array_write_def task_inv_def LINE_BUF_SIZE_def)
  have a: "feed_bytes (bs @ [byte]) (task_start junk) = feed_byte byte s"
    by (simp add: feed_bytes_append s(1) feed_bytes_Cons feed_bytes_Nil split: sum.splits)
  show ?thesis
    using s s' w a by (auto simp: task_inv_def)
qed

subsection \<open>C7: the fill length and the content of the buffer\<close>



subsection \<open>C8: no empty Command Line\<close>

lemma c_string_empty: "l \<noteq> [] \<Longrightarrow> (c_string l = []) = (hd l = NUL)"
  by (cases l) (simp_all add: c_string_def)

text \<open>
  C8, as amended. Every Command Line that the task dispatches has at least one byte: a
  line is dispatched only when a terminator arrives with a fill length above 0. The
  string that the responder reads from a dispatched line, the bytes before its first NUL,
  is empty exactly when the first byte of the line is NUL.
\<close>

theorem dispatched_lines_nonempty:
  "\<exists>s. feed_bytes bs (task_start junk) = Inr s
       \<and> [] \<notin> set (dispatched s)
       \<and> list_all (\<lambda>l. (c_string l = []) = (hd l = NUL)) (dispatched s)"
proof -
  from run_from_start [of bs junk] obtain s where
    s: "feed_bytes bs (task_start junk) = Inr s" "dispatched s = spec_lines [] bs"
    by blast
  have n: "[] \<notin> set (dispatched s)"
    unfolding s(2) by (rule spec_lines_nonempty)
  then have "list_all (\<lambda>l. (c_string l = []) = (hd l = NUL)) (dispatched s)"
    unfolding list_all_iff using c_string_empty by metis
  then show ?thesis using s(1) n by blast
qed

text \<open>
  C8 as it is written fails: the responder can be given the empty string. The bytes NUL,
  CR dispatch the one-byte line NUL, which \<open>process_line\<close> reads as the empty C string:
  it logs \<open>received: ""\<close> and answers \<open>ERROR\<close>.
\<close>

theorem dispatched_lines_nonempty_counterexample:
  "map_sum id dispatched (feed_bytes [NUL, CR] (task_start stack_z)) = Inr [[NUL]]
   \<and> map_sum id console (feed_bytes [NUL, CR] (task_start stack_z))
       = Inr (''[fake_modem] received: '' @ [DQUOTE] @ [] @ [DQUOTE, LF])
   \<and> map_sum id uart2_tx (feed_bytes [NUL, CR] (task_start stack_z))
       = Inr ([CR, LF] @ ''ERROR'' @ [CR, LF])
   \<and> printf_s (NUL # drop 1 (line_buf (task_start stack_z))) = Inr []"
proof -
  have d: "NUL \<noteq> CR" "NUL \<noteq> LF" "line_pos (task_start stack_z) < LINE_BUF_SIZE - 2"
    by (simp_all add: NUL_def CR_def LF_def task_start_fields LINE_BUF_SIZE_def)
  from feed_byte_data [OF task_start_inv d(1,2), of stack_z] d(3) obtain s1 where
    s1: "feed_byte NUL (task_start stack_z) = Inr s1" "task_inv s1" "line_pos s1 = 1"
        "gathered s1 = [NUL]" "uart2_tx s1 = []" "console s1 = []" "dispatched s1 = []"
    by (auto simp: task_start_fields task_start_gathered)
  have p: "0 < line_pos s1" using s1(3) by simp
  from feed_byte_dispatch [OF s1(2) _ p, of CR] obtain s2 where
    s2: "feed_byte CR s1 = Inr s2" "dispatched s2 = [[NUL]]"
        "console s2 = ''[fake_modem] received: '' @ [DQUOTE] @ [] @ [DQUOTE, LF]"
        "uart2_tx s2 = [CR, LF] @ ''ERROR'' @ [CR, LF]"
    unfolding s1(4-7) by (auto simp: c_string_def response_table_def TAG_def)
  have "feed_bytes [NUL, CR] (task_start stack_z) = Inr s2"
    by (simp add: feed_bytes_Cons feed_bytes_Nil s1(1) s2(1))
  then show ?thesis using s2 by simp
qed

subsection \<open>C9: a NUL byte in a line\<close>

text \<open>
  C9. When a dispatched Command Line has a NUL byte, the response is chosen by the bytes
  before the first NUL alone. The line of the four bytes \<open>A\<close>, \<open>T\<close>, NUL, \<open>X\<close> is
  answered with \<open>OK\<close>.
\<close>

theorem nul_truncates_match:
  assumes "line \<noteq> []" and "CR \<notin> set line" and "LF \<notin> set line" and "length line < 127"
    and "NUL \<in> set line" and "t = CR \<or> t = LF"
  shows "(\<exists>s. feed_bytes (line @ [t]) (task_start junk) = Inr s
             \<and> dispatched s = [line]
             \<and> uart2_tx s = response_table (takeWhile (\<lambda>c. c \<noteq> NUL) line))
       \<and> (\<exists>s. feed_bytes ([CHR ''A'', CHR ''T'', NUL, CHR ''X''] @ [t]) (task_start junk) = Inr s
             \<and> dispatched s = [[CHR ''A'', CHR ''T'', NUL, CHR ''X'']]
             \<and> uart2_tx s = [CR, LF] @ ''OK'' @ [CR, LF])"
proof -
  have one: "\<exists>s. feed_bytes (l @ [t]) (task_start junk) = Inr s
                \<and> dispatched s = [l]
                \<and> uart2_tx s = response_table (takeWhile (\<lambda>c. c \<noteq> NUL) l)"
    if l: "l \<noteq> []" "CR \<notin> set l" "LF \<notin> set l" "length l < 127" for l
  proof -
    have body: "spec_buffer [] l = l" "spec_lines [] l = []"
      using spec_body_fits [of l "[]"] l(2-4) by simp_all
    have lines: "spec_lines [] (l @ [t]) = [l]"
      using l(1) assms(6) by (auto simp: spec_lines_append body spec_feed_def)
    from run_from_start [of "l @ [t]" junk] show ?thesis
      unfolding lines by (auto simp: responses_def c_string_def)
  qed
  have ex: "[CHR ''A'', CHR ''T'', NUL, CHR ''X''] \<noteq> []"
    "CR \<notin> set [CHR ''A'', CHR ''T'', NUL, CHR ''X'']"
    "LF \<notin> set [CHR ''A'', CHR ''T'', NUL, CHR ''X'']"
    "length [CHR ''A'', CHR ''T'', NUL, CHR ''X''] < 127"
    by (simp_all add: NUL_def CR_def LF_def)
  have r: "response_table (takeWhile (\<lambda>c. c \<noteq> NUL) [CHR ''A'', CHR ''T'', NUL, CHR ''X''])
             = [CR, LF] @ ''OK'' @ [CR, LF]"
    by (simp add: response_table_def NUL_def)
  show ?thesis
    using one [OF assms(1-4)] one [OF ex] unfolding r by blast
qed

theorem nul_truncates_match_witness:
  "''AT+CSQ'' @ [NUL] @ ''=1'' \<noteq> [] \<and> CR \<notin> set (''AT+CSQ'' @ [NUL] @ ''=1'')
   \<and> LF \<notin> set (''AT+CSQ'' @ [NUL] @ ''=1'') \<and> length (''AT+CSQ'' @ [NUL] @ ''=1'') < 127
   \<and> NUL \<in> set (''AT+CSQ'' @ [NUL] @ ''=1'')
   \<and> (\<exists>s. feed_bytes ((''AT+CSQ'' @ [NUL] @ ''=1'') @ [CR]) (task_start stack_z) = Inr s
           \<and> dispatched s = [''AT+CSQ'' @ [NUL] @ ''=1'']
           \<and> uart2_tx s = [CR, LF] @ ''+CSQ: 20,99'' @ [CR, LF] @ ''OK'' @ [CR, LF])
   \<and> (\<exists>s. feed_bytes ([CHR ''A'', CHR ''T'', NUL, CHR ''X''] @ [CR]) (task_start stack_z) = Inr s
           \<and> dispatched s = [[CHR ''A'', CHR ''T'', NUL, CHR ''X'']]
           \<and> uart2_tx s = [CR, LF] @ ''OK'' @ [CR, LF])"
proof -
  let ?l = "''AT+CSQ'' @ [NUL] @ ''=1''"
  have h: "?l \<noteq> []" "CR \<notin> set ?l" "LF \<notin> set ?l" "length ?l < 127" "NUL \<in> set ?l"
    by (simp_all add: NUL_def CR_def LF_def)
  have r: "response_table (takeWhile (\<lambda>c. c \<noteq> NUL) ?l)
             = [CR, LF] @ ''+CSQ: 20,99'' @ [CR, LF] @ ''OK'' @ [CR, LF]"
    by (simp add: response_table_def NUL_def)
  show ?thesis
    using nul_truncates_match [OF h, of CR stack_z] h unfolding r by blast
qed

subsection \<open>C10: timeouts do not change the responses\<close>

text \<open>
  C10. An iteration in which \<open>uart_read_bytes\<close> returns no byte leaves the state of the
  task as it was. So two runs of the loop that receive the same bytes in the same order,
  however the bytes are interleaved with timeouts, end in the same state when they start
  in the same state; and from the entry of the loop, whatever the array held at first,
  they write the same bytes on UART2.
\<close>

theorem responses_independent_of_timeouts:
  assumes "received_bytes polls1 = received_bytes polls2" and "n \<le> 0"
  shows "task_iteration (n, stale) s = Inr s
       \<and> fake_modem_task polls1 s = fake_modem_task polls2 s
       \<and> (\<exists>s1 s2. fake_modem_task polls1 (task_start junk1) = Inr s1
                  \<and> fake_modem_task polls2 (task_start junk2) = Inr s2
                  \<and> uart2_tx s1 = uart2_tx s2 \<and> dispatched s1 = dispatched s2
                  \<and> line_pos s1 = line_pos s2)"
proof (intro conjI)
  show "task_iteration (n, stale) s = Inr s"
    using assms(2) by (simp add: task_iteration_def)
  show "fake_modem_task polls1 s = fake_modem_task polls2 s"
    by (simp add: fake_modem_task_received assms(1))
  from run_from_start [of "received_bytes polls1" junk1] obtain s1 where
    s1: "feed_bytes (received_bytes polls1) (task_start junk1) = Inr s1" "task_inv s1"
        "gathered s1 = spec_buffer [] (received_bytes polls1)"
        "dispatched s1 = spec_lines [] (received_bytes polls1)"
        "uart2_tx s1 = responses (spec_lines [] (received_bytes polls1))"
    by blast
  from run_from_start [of "received_bytes polls2" junk2] obtain s2 where
    s2: "feed_bytes (received_bytes polls2) (task_start junk2) = Inr s2" "task_inv s2"
        "gathered s2 = spec_buffer [] (received_bytes polls2)"
        "dispatched s2 = spec_lines [] (received_bytes polls2)"
        "uart2_tx s2 = responses (spec_lines [] (received_bytes polls2))"
    by blast
  have "line_pos s1 = line_pos s2"
    using line_pos_gathered [OF s1(2)] line_pos_gathered [OF s2(2)] s1(3) s2(3) assms(1)
    by simp
  then show "\<exists>s1 s2. fake_modem_task polls1 (task_start junk1) = Inr s1
                  \<and> fake_modem_task polls2 (task_start junk2) = Inr s2
                  \<and> uart2_tx s1 = uart2_tx s2 \<and> dispatched s1 = dispatched s2
                  \<and> line_pos s1 = line_pos s2"
    using s1 s2 assms(1) by (auto simp: fake_modem_task_received)
qed

theorem responses_independent_of_timeouts_witness:
  "received_bytes [(1, CHR ''A''), (0, CHR ''A''), (1, CHR ''T''), (1, CR)]
     = received_bytes [(0, CHR ''q''), (1, CHR ''A''), (1, CHR ''T''), (- 1, CHR ''T''),
                       (0, CHR ''T''), (1, CR)]
   \<and> (0::int) \<le> 0
   \<and> task_iteration (0, CHR ''q'') (task_start stack_z) = Inr (task_start stack_z)
   \<and> fake_modem_task [(1, CHR ''A''), (0, CHR ''A''), (1, CHR ''T''), (1, CR)]
       (task_start stack_z)
     = fake_modem_task [(0, CHR ''q''), (1, CHR ''A''), (1, CHR ''T''), (- 1, CHR ''T''),
                        (0, CHR ''T''), (1, CR)] (task_start stack_z)"
proof -
  have h: "received_bytes [(1, CHR ''A''), (0, CHR ''A''), (1, CHR ''T''), (1, CR)]
             = received_bytes [(0, CHR ''q''), (1, CHR ''A''), (1, CHR ''T''), (- 1, CHR ''T''),
                               (0, CHR ''T''), (1, CR)]"
    "(0::int) \<le> 0"
    by (simp_all add: received_bytes_def)
  show ?thesis
    using responses_independent_of_timeouts [OF h, of "CHR ''q''" "task_start stack_z"] h
    by blast
qed

end
